theory Spec2Isabelle
  imports Main
begin

section \<open>Stack Overflow answer validator\<close>

text \<open>
  A shallow embedding of \<^verbatim>\<open>stack_overflow_validator.py\<close>.

  Python strings are modelled as \<^typ>\<open>string\<close>, a list of 8-bit characters, so the texts
  covered are those over the code points below 256. On that range the character classes
  \<^verbatim>\<open>\d\<close> and \<^verbatim>\<open>\w\<close> are the ones Python's Unicode-aware \<^verbatim>\<open>re\<close> module uses for
  \<^verbatim>\<open>str\<close> patterns. Python's integers are \<^typ>\<open>int\<close>. The one call of the source that can
  raise is \<^verbatim>\<open>int()\<close>, which refuses a digit string longer than the interpreter's limit; the
  exception is not caught anywhere, so the functions from there up to the verdict return
  an error or a value.

  Every regular expression of the source is translated into the backtracking matcher that
  the \<^verbatim>\<open>re\<close> engine runs for it: a function that matches the pattern at the start of the
  text it is given, and a scanner that tries the positions from left to right.
\<close>

subsection \<open>Characters and strings\<close>

definition LF :: char where
  "LF = CHR 0x0A"

text \<open>\<^verbatim>\<open>\d\<close>: the decimal digits; below code point 256 these are \<^verbatim>\<open>0\<close> to \<^verbatim>\<open>9\<close>.\<close>

definition is_digit :: "char \<Rightarrow> bool" where
  "is_digit c = (let n = (of_char c :: nat) in 48 \<le> n \<and> n \<le> 57)"

text \<open>
  \<^verbatim>\<open>\w\<close>: alphanumeric characters and the underscore. Below code point 256 the
  alphanumeric characters are the ASCII letters and digits, the letters of Latin-1
  (0xAA, 0xB5, 0xBA, 0xC0 to 0xFF without 0xD7 and 0xF7) and its numeric characters
  (0xB2, 0xB3, 0xB9, 0xBC to 0xBE).
\<close>

definition is_word :: "char \<Rightarrow> bool" where
  "is_word c = (let n = (of_char c :: nat) in
     (48 \<le> n \<and> n \<le> 57) \<or> (65 \<le> n \<and> n \<le> 90) \<or> n = 95 \<or> (97 \<le> n \<and> n \<le> 122) \<or>
     n = 170 \<or> n = 178 \<or> n = 179 \<or> n = 181 \<or> n = 185 \<or> n = 186 \<or>
     (188 \<le> n \<and> n \<le> 190) \<or> (192 \<le> n \<and> n \<le> 214) \<or> (216 \<le> n \<and> n \<le> 246) \<or>
     248 \<le> n)"

text \<open>
  \<^verbatim>\<open>\b\<close> between the character before a position and the character after it
  (\<open>None\<close> at either end of the text): exactly one of the two is a word character.
\<close>

definition is_word_opt :: "char option \<Rightarrow> bool" where
  "is_word_opt c = (case c of None \<Rightarrow> False | Some x \<Rightarrow> is_word x)"

definition word_boundary :: "char option \<Rightarrow> char option \<Rightarrow> bool" where
  "word_boundary prev nxt = (is_word_opt prev \<noteq> is_word_opt nxt)"

definition head_opt :: "string \<Rightarrow> char option" where
  "head_opt s = (case s of [] \<Rightarrow> None | c # _ \<Rightarrow> Some c)"

text \<open>A literal at the start of the text: the text after it, or \<open>None\<close>.\<close>

fun strip_prefix :: "string \<Rightarrow> string \<Rightarrow> string option" where
  "strip_prefix [] s = Some s"
| "strip_prefix (p # ps) [] = None"
| "strip_prefix (p # ps) (c # cs) = (if p = c then strip_prefix ps cs else None)"

text \<open>\<^verbatim>\<open>sep.join(xs)\<close>.\<close>

fun join :: "string \<Rightarrow> string list \<Rightarrow> string" where
  "join sep [] = []"
| "join sep [x] = x"
| "join sep (x # y # ys) = x @ sep @ join sep (y # ys)"

text \<open>\<^verbatim>\<open>str(n)\<close> for an integer, as the f-strings of the source format it.\<close>

definition digit_char :: "nat \<Rightarrow> char" where
  "digit_char d =
     (if d = 0 then CHR ''0'' else if d = 1 then CHR ''1'' else if d = 2 then CHR ''2''
      else if d = 3 then CHR ''3'' else if d = 4 then CHR ''4'' else if d = 5 then CHR ''5''
      else if d = 6 then CHR ''6'' else if d = 7 then CHR ''7'' else if d = 8 then CHR ''8''
      else CHR ''9'')"

fun str_nat :: "nat \<Rightarrow> string" where
  "str_nat n = (if n < 10 then [digit_char n] else str_nat (n div 10) @ [digit_char (n mod 10)])"

declare str_nat.simps [simp del]

definition str_int :: "int \<Rightarrow> string" where
  "str_int i = (if i < 0 then CHR ''-'' # str_nat (nat (- i)) else str_nat (nat i))"

text \<open>The exception the source can raise.\<close>

datatype error = ValueError

text \<open>The decimal reading of a string of digits.\<close>

definition digit_val :: "char \<Rightarrow> int" where
  "digit_val c = int (of_char c) - 48"

definition decimal_value :: "string \<Rightarrow> int" where
  "decimal_value s = foldl (\<lambda>acc c. 10 * acc + digit_val c) 0 s"

text \<open>
  \<^verbatim>\<open>int(s)\<close> on a string of decimal digits. The interpreter converts at most
  \<^verbatim>\<open>sys.get_int_max_str_digits()\<close> digits, 4300 unless it is configured otherwise, leading
  zeros counted, and raises \<^verbatim>\<open>ValueError\<close> on a longer string.
\<close>

definition int_max_str_digits :: nat where
  "int_max_str_digits = 4300"

definition int_of_digits :: "string \<Rightarrow> error + int" where
  "int_of_digits s =
     (if int_max_str_digits < length s then Inl ValueError else Inr (decimal_value s))"

subsection \<open>Block extraction\<close>

text \<open>
  \<^verbatim>\<open>re.findall(r'```(?:python)?\n(.*?)```', text, re.DOTALL)\<close>
\<close>

definition fence :: string where
  "fence = ''```''"

text \<open>
  \<^verbatim>\<open>(.*?)```\<close> with \<^verbatim>\<open>DOTALL\<close>: the lazy star first tries the closing fence where it
  stands and only then takes one more character, whatever it is. The result is the
  captured content and the text after the closing fence.
\<close>

fun lazy_until_fence :: "string \<Rightarrow> (string \<times> string) option" where
  "lazy_until_fence [] = None"
| "lazy_until_fence (c # cs) =
     (case strip_prefix fence (c # cs) of
        Some r \<Rightarrow> Some ([], r)
      | None \<Rightarrow> (case lazy_until_fence cs of
                   None \<Rightarrow> None
                 | Some (b, r) \<Rightarrow> Some (c # b, r)))"

text \<open>\<^verbatim>\<open>\n(.*?)```\<close>: what follows the optional tag.\<close>

definition after_tag :: "string \<Rightarrow> (string \<times> string) option" where
  "after_tag s = (case strip_prefix [LF] s of None \<Rightarrow> None | Some r \<Rightarrow> lazy_until_fence r)"

text \<open>
  The whole pattern at the start of the text. The optional group is greedy: the engine
  first takes \<^verbatim>\<open>python\<close> when it is there, and falls back to the empty alternative when
  the rest of the pattern fails after it.
\<close>

definition match_block :: "string \<Rightarrow> (string \<times> string) option" where
  "match_block s =
     (case strip_prefix fence s of
        None \<Rightarrow> None
      | Some r \<Rightarrow>
          (case (case strip_prefix ''python'' r of None \<Rightarrow> None | Some r' \<Rightarrow> after_tag r') of
             Some res \<Rightarrow> Some res
           | None \<Rightarrow> after_tag r))"

lemma strip_prefix_length: "strip_prefix p s = Some r \<Longrightarrow> length s = length p + length r"
  by (induction p s rule: strip_prefix.induct) (auto split: if_splits)

lemma lazy_until_fence_length:
  "lazy_until_fence s = Some (b, r) \<Longrightarrow> length s = length b + 3 + length r"
proof (induction s arbitrary: b r)
  case Nil
  then show ?case by simp
next
  case (Cons c cs)
  show ?case
  proof (cases "strip_prefix fence (c # cs)")
    case None
    with Cons.prems obtain b' where "lazy_until_fence cs = Some (b', r)" and "b = c # b'"
      by (auto split: option.splits)
    with Cons.IH show ?thesis by simp
  next
    case (Some r')
    with Cons.prems have "b = []" and "r' = r" by auto
    with Some strip_prefix_length [of fence "c # cs" r] show ?thesis
      by (simp add: fence_def)
  qed
qed

lemma after_tag_length: "after_tag s = Some (b, r) \<Longrightarrow> length r < length s"
  by (auto simp: after_tag_def split: option.splits
      dest!: strip_prefix_length lazy_until_fence_length)

lemma match_block_length: "match_block s = Some (b, r) \<Longrightarrow> length r < length s"
  by (auto simp: match_block_def split: option.splits
      dest!: strip_prefix_length after_tag_length)

text \<open>
  \<^verbatim>\<open>findall\<close>: a match at the current position gives a block and the scan goes on after
  the closing fence; without a match the scan moves one character on.
\<close>

function extract_code_blocks :: "string \<Rightarrow> string list" where
  "extract_code_blocks s =
     (case match_block s of
        Some (b, r) \<Rightarrow> b # extract_code_blocks r
      | None \<Rightarrow> (case s of [] \<Rightarrow> [] | c # cs \<Rightarrow> extract_code_blocks cs))"
  by pat_completeness auto
termination
  by (relation "measure length") (auto dest: match_block_length)

declare extract_code_blocks.simps [simp del]

subsection \<open>Deprecation rules\<close>

text \<open>
  The patterns of the rule table are literals, except the last one, \<^verbatim>\<open>print \w+\<close>,
  a literal followed by one or more word characters.
\<close>

datatype pattern = Literal string | Literal_words string

text \<open>
  The pattern at the start of the text. Only the existence of a match is used, so for
  \<^verbatim>\<open>\w+\<close>, which nothing follows, it is enough that one word character is there.
\<close>

fun match_pattern :: "pattern \<Rightarrow> string \<Rightarrow> bool" where
  "match_pattern (Literal l) s = (strip_prefix l s \<noteq> None)"
| "match_pattern (Literal_words l) s =
     (case strip_prefix l s of
        None \<Rightarrow> False
      | Some r \<Rightarrow> (case r of [] \<Rightarrow> False | c # _ \<Rightarrow> is_word c))"

text \<open>\<^verbatim>\<open>re.search(pattern, code)\<close> as a truth value: the positions from left to right.\<close>

fun re_search :: "pattern \<Rightarrow> string \<Rightarrow> bool" where
  "re_search p [] = match_pattern p []"
| "re_search p (c # cs) = (match_pattern p (c # cs) \<or> re_search p cs)"

definition deprecated_patterns :: "(pattern \<times> string) list" where
  "deprecated_patterns =
     [(Literal ''from tkinter import ttk'', ''ttk is still fine, but are YOU?''),
      (Literal ''import urllib2'', ''Python 2 called, it wants its imports back''),
      (Literal ''from StringIO import'', ''This import is so old it has a pension''),
      (Literal ''import md5'', ''MD5? More like M-Deprecated''),
      (Literal_words ''print '', ''Missing parentheses - the classic sign of vintage code'')]"

text \<open>The loop over the table, appending the message of each pattern that is found.\<close>

fun check_rules :: "(pattern \<times> string) list \<Rightarrow> string \<Rightarrow> string list" where
  "check_rules [] code = []"
| "check_rules ((p, m) # rules) code =
     (if re_search p code then m # check_rules rules code else check_rules rules code)"

definition check_imports :: "string \<Rightarrow> string list" where
  "check_imports code = check_rules deprecated_patterns code"

subsection \<open>Magic numbers\<close>

text \<open>
  \<^verbatim>\<open>re.findall(r'\b\d{3,}\b', code)\<close>

  After the three digits that must be there, the greedy repetition first takes one more
  digit and tries the rest of the pattern behind it, and only when that fails tries the
  closing \<^verbatim>\<open>\b\<close> where it stands. The first argument is the last character taken.
\<close>

fun more_digits :: "char \<Rightarrow> string \<Rightarrow> (string \<times> string) option" where
  "more_digits prev [] = (if word_boundary (Some prev) None then Some ([], []) else None)"
| "more_digits prev (c # cs) =
     (case (if is_digit c then more_digits c cs else None) of
        Some (t, r) \<Rightarrow> Some (c # t, r)
      | None \<Rightarrow> if word_boundary (Some prev) (Some c) then Some ([], c # cs) else None)"

text \<open>
  The pattern at a position: the character before the position (\<open>None\<close> at the start of
  the text) and the text from the position on. The result is the token and the text
  after it.
\<close>

definition match_number :: "char option \<Rightarrow> string \<Rightarrow> (string \<times> string) option" where
  "match_number prev s =
     (if word_boundary prev (head_opt s) then
        (case s of
           d1 # d2 # d3 # rest \<Rightarrow>
             if is_digit d1 \<and> is_digit d2 \<and> is_digit d3 then
               (case more_digits d3 rest of
                  None \<Rightarrow> None
                | Some (t, r) \<Rightarrow> Some (d1 # d2 # d3 # t, r))
             else None
         | _ \<Rightarrow> None)
      else None)"

lemma more_digits_length: "more_digits prev s = Some (t, r) \<Longrightarrow> length r \<le> length s"
proof (induction s arbitrary: prev t r)
  case Nil
  then show ?case by (simp split: if_splits)
next
  case (Cons c cs)
  show ?case
  proof (cases "if is_digit c then more_digits c cs else None")
    case None
    with Cons.prems show ?thesis by (auto split: if_splits)
  next
    case (Some res)
    obtain t' r' where res: "res = (t', r')" by (cases res)
    with Some have "more_digits c cs = Some (t', r')" by (simp split: if_splits)
    then have "length r' \<le> length cs" by (rule Cons.IH)
    moreover from Cons.prems Some res have "r = r'" by simp
    ultimately show ?thesis by simp
  qed
qed

lemma match_number_length: "match_number prev s = Some (t, r) \<Longrightarrow> length r < length s"
  by (auto simp: match_number_def split: if_splits list.splits option.splits
      dest!: more_digits_length)

text \<open>\<^verbatim>\<open>findall\<close> for this pattern; the scan carries the character before the position.\<close>

function find_numbers :: "char option \<Rightarrow> string \<Rightarrow> string list" where
  "find_numbers prev s =
     (case match_number prev s of
        Some (t, r) \<Rightarrow> t # find_numbers (Some (last t)) r
      | None \<Rightarrow> (case s of [] \<Rightarrow> [] | c # cs \<Rightarrow> find_numbers (Some c) cs))"
  by pat_completeness auto
termination
  by (relation "measure (\<lambda>(prev, s). length s)") (auto dest: match_number_length)

declare find_numbers.simps [simp del]

definition check_for_magic_numbers :: "string \<Rightarrow> string list" where
  "check_for_magic_numbers code =
     (let magic_numbers = find_numbers None code
      in if magic_numbers \<noteq> [] then
           [''Magic number(s) found: '' @ join '', '' magic_numbers @
            '' - hope they're not port numbers'']
         else [])"

subsection \<open>The URL heuristic\<close>

text \<open>
  \<^verbatim>\<open>\d+/\<close>: one digit, then greedily more digits, then the slash. The result is the digits
  and the text after the slash.
\<close>

fun digits_slash :: "string \<Rightarrow> (string \<times> string) option" where
  "digits_slash [] = None"
| "digits_slash (c # cs) =
     (if is_digit c then
        (case digits_slash cs of
           Some (ds, r) \<Rightarrow> Some (c # ds, r)
         | None \<Rightarrow> (case strip_prefix ''/'' cs of None \<Rightarrow> None | Some r \<Rightarrow> Some ([c], r)))
      else None)"

text \<open>A literal and then \<^verbatim>\<open>(\d+)/\<close> at the start of the text: the digits captured.\<close>

definition match_id :: "string \<Rightarrow> string \<Rightarrow> string option" where
  "match_id lit s =
     (case strip_prefix lit s of
        None \<Rightarrow> None
      | Some r \<Rightarrow> (case digits_slash r of None \<Rightarrow> None | Some (ds, _) \<Rightarrow> Some ds))"

text \<open>\<^verbatim>\<open>re.search\<close> for such a pattern: the leftmost match.\<close>

fun search_id :: "string \<Rightarrow> string \<Rightarrow> string option" where
  "search_id lit [] = match_id lit []"
| "search_id lit (c # cs) =
     (case match_id lit (c # cs) of Some ds \<Rightarrow> Some ds | None \<Rightarrow> search_id lit cs)"

text \<open>\<^verbatim>\<open>re.search(r'stackoverflow\.com/questions/\d+/', url)\<close> as a truth value.\<close>

definition url_shape :: "string \<Rightarrow> bool" where
  "url_shape url = (search_id ''stackoverflow.com/questions/'' url \<noteq> None)"

text \<open>
  \<^verbatim>\<open>re.search(r'questions/(\d+)/', url)\<close> and \<^verbatim>\<open>match.group(1)\<close>: the digits of the
  question identifier, \<open>None\<close> without a match.
\<close>

definition question_id_digits :: "string \<Rightarrow> string option" where
  "question_id_digits url = search_id ''questions/'' url"

text \<open>\<^verbatim>\<open>int(match.group(1))\<close>: the question identifier, or the error of the conversion.\<close>

definition question_id :: "string \<Rightarrow> (error + int) option" where
  "question_id url = map_option int_of_digits (question_id_digits url)"

text \<open>\<^verbatim>\<open>datetime.now()\<close>, of which the source reads the year.\<close>

record datetime =
  year :: int
  month :: int
  day :: int
  hour :: int
  minute :: int
  second :: int
  microsecond :: int

text \<open>
  The issue the URL adds, as a list: empty or one message. The call of \<^verbatim>\<open>int()\<close> is the
  place where the function can raise.
\<close>

definition url_issues :: "datetime \<Rightarrow> string option \<Rightarrow> error + string list" where
  "url_issues now url =
     (let current_year = year now in
      case url of
        None \<Rightarrow> Inr []
      | Some u \<Rightarrow>
          if u \<noteq> [] \<and> url_shape u then
            (case question_id u of
               None \<Rightarrow> Inr []
             | Some (Inl e) \<Rightarrow> Inl e
             | Some (Inr qid) \<Rightarrow>
                 if qid < 1000000 then
                   Inr [''Question ID '' @ str_int qid @ '' looks ancient (like before '' @
                        str_int (current_year - 5) @ '')'']
                 else Inr [])
          else Inr [])"

subsection \<open>The verdict\<close>

text \<open>The loop over \<^verbatim>\<open>enumerate(code_blocks, 1)\<close>.\<close>

fun block_issues :: "int \<Rightarrow> string list \<Rightarrow> string list" where
  "block_issues i [] = []"
| "block_issues i (code # blocks) =
     (let issues = check_imports code @ check_for_magic_numbers code
      in if issues \<noteq> [] then
           (''Block '' @ str_int i @ '': '' @ join '' | '' issues) # block_issues (i + 1) blocks
         else block_issues (i + 1) blocks)"

text \<open>
  The list \<^verbatim>\<open>all_issues\<close> when the last branch of the function is reached: the issues of
  the blocks and then the one of the URL, unless the URL step raised.
\<close>

definition all_issues :: "datetime \<Rightarrow> string list \<Rightarrow> string option \<Rightarrow> error + string list" where
  "all_issues now code_blocks url =
     (case url_issues now url of
        Inl e \<Rightarrow> Inl e
      | Inr from_url \<Rightarrow> Inr (block_issues 1 code_blocks @ from_url))"

text \<open>The verdict is a dictionary from field names to strings.\<close>

type_synonym verdict = "string \<rightharpoonup> string"

definition validate_stackoverflow_answer ::
  "datetime \<Rightarrow> string \<Rightarrow> string option \<Rightarrow> error + verdict" where
  "validate_stackoverflow_answer now answer_text url =
     (let code_blocks = extract_code_blocks answer_text in
      if code_blocks = [] then
        Inr [''status'' \<mapsto> ''SUSPICIOUS'',
             ''message'' \<mapsto>
               ''No code blocks found. Probably just philosophical advice about programming.'']
      else
        case all_issues now code_blocks url of
          Inl e \<Rightarrow> Inl e
        | Inr issues \<Rightarrow>
            if issues \<noteq> [] then
              Inr [''status'' \<mapsto> ''PROBABLY_OUTDATED'',
                   ''message'' \<mapsto> ''Potential issues found:'' @ join (LF # ''- '') ([] # issues),
                   ''advice'' \<mapsto>
                     ''Check library docs instead. Or just rewrite it yourself like a real developer.'']
            else
              Inr [''status'' \<mapsto> ''MAYBE_OK'',
                   ''message'' \<mapsto>
                     ''No obvious red flags. But remember: Stack Overflow answers age like milk.'',
                   ''advice'' \<mapsto>
                     ''Test thoroughly before production. Or better yet, write your own solution.''])"

subsection \<open>Notions used in the properties\<close>

text \<open>The two verdicts with a fixed content.\<close>

definition suspicious_verdict :: verdict where
  "suspicious_verdict =
     [''status'' \<mapsto> ''SUSPICIOUS'',
      ''message'' \<mapsto>
        ''No code blocks found. Probably just philosophical advice about programming.'']"

definition maybe_ok_verdict :: verdict where
  "maybe_ok_verdict =
     [''status'' \<mapsto> ''MAYBE_OK'',
      ''message'' \<mapsto>
        ''No obvious red flags. But remember: Stack Overflow answers age like milk.'',
      ''advice'' \<mapsto>
        ''Test thoroughly before production. Or better yet, write your own solution.'']"

text \<open>The text contains a triple-backtick fence somewhere.\<close>

definition has_fence :: "string \<Rightarrow> bool" where
  "has_fence s = re_search (Literal fence) s"

definition backtick :: char where
  "backtick = CHR 0x60"




text \<open>A clock reading for the examples.\<close>

definition clock :: datetime where
  "clock = \<lparr>year = 2024, month = 11, day = 3, hour = 12, minute = 0, second = 0, microsecond = 0\<rparr>"

text \<open>The verdict for a non-empty list of issues.\<close>

definition probably_outdated_verdict :: "string list \<Rightarrow> verdict" where
  "probably_outdated_verdict issues =
     [''status'' \<mapsto> ''PROBABLY_OUTDATED'',
      ''message'' \<mapsto> ''Potential issues found:'' @ join (LF # ''- '') ([] # issues),
      ''advice'' \<mapsto>
        ''Check library docs instead. Or just rewrite it yourself like a real developer.'']"


text \<open>An answer with one clean block, and two question URLs.\<close>

definition clean_answer :: string where
  "clean_answer = ''Try this:'' @ [LF] @ ''```python'' @ [LF] @ ''x = 1'' @ [LF] @ ''```''"

definition old_url :: string where
  "old_url = ''https://stackoverflow.com/questions/123456/how-to''"






text \<open>Another clock reading in the same year.\<close>

definition later_clock :: datetime where
  "later_clock = \<lparr>year = 2024, month = 12, day = 31, hour = 23, minute = 59, second = 59, microsecond = 7\<rparr>"

text \<open>Two adjacent fenced blocks, the first one importing md5.\<close>

definition two_blocks :: string where
  "two_blocks =
     ''```'' @ [LF] @ ''import md5'' @ [LF] @ ''```'' @ ''```'' @ [LF] @ ''x=1'' @ [LF] @ ''```''"


text \<open>A fenced block written on one line.\<close>

definition one_line_block :: string where
  "one_line_block = ''```x=1```''"

text \<open>The message of the last rule of the table.\<close>

definition vintage_message :: string where
  "vintage_message = ''Missing parentheses - the classic sign of vintage code''"

text \<open>
  The print statement form in the words of the specification: the keyword \<^verbatim>\<open>print\<close> as a
  word of its own (no word character before it), one space, and an identifier, read here
  as one or more word characters. The scan carries the character before the position.
\<close>

fun spec_print_statement_from :: "char option \<Rightarrow> string \<Rightarrow> bool" where
  "spec_print_statement_from prev [] = False"
| "spec_print_statement_from prev (c # cs) =
     ((\<not> is_word_opt prev \<and> match_pattern (Literal_words ''print '') (c # cs)) \<or>
      spec_print_statement_from (Some c) cs)"

definition spec_print_statement :: "string \<Rightarrow> bool" where
  "spec_print_statement code = spec_print_statement_from None code"

text \<open>
  The standalone numbers of a block in the words of the specification, by position: at
  position \<open>i\<close> stands a token when the digits from there on are three or more, no word
  character stands before them and none after them. The tokens are listed by position.
\<close>

definition char_before :: "string \<Rightarrow> nat \<Rightarrow> char option" where
  "char_before code i = (if i = 0 then None else Some (code ! (i - 1)))"

definition spec_token_at :: "string \<Rightarrow> nat \<Rightarrow> string option" where
  "spec_token_at code i =
     (let run = takeWhile is_digit (drop i code) in
      if 3 \<le> length run \<and> \<not> is_word_opt (char_before code i) \<and>
         \<not> is_word_opt (head_opt (drop (i + length run) code))
      then Some run else None)"

definition spec_standalone_numbers :: "string \<Rightarrow> string list" where
  "spec_standalone_numbers code = List.map_filter (spec_token_at code) [0..<length code]"

text \<open>The finding for a list of tokens, and a block with two of them.\<close>

definition magic_finding :: "string list \<Rightarrow> string" where
  "magic_finding tokens =
     ''Magic number(s) found: '' @ join '', '' tokens @ '' - hope they're not port numbers''"

definition config_block :: string where
  "config_block = ''timeout = 3000; port = 8080; x1234 = 5''"

section \<open>Properties\<close>

subsection \<open>Facts about extraction\<close>

lemma has_fence_Cons: "has_fence cs \<Longrightarrow> has_fence (c # cs)"
  by (simp add: has_fence_def)

lemma has_fence_append: "has_fence s \<Longrightarrow> has_fence (p @ s)"
  by (induction p) (auto intro: has_fence_Cons)

lemma has_fence_start: "strip_prefix fence s \<noteq> None \<Longrightarrow> has_fence s"
  by (cases s) (auto simp: has_fence_def)

lemma strip_prefix_append: "strip_prefix p s = Some r \<Longrightarrow> s = p @ r"
  by (induction p s rule: strip_prefix.induct) (auto split: if_splits)

lemma strip_prefix_same: "strip_prefix p (p @ r) = Some r"
  by (induction p) auto

lemma lazy_until_fence_split: "lazy_until_fence s = Some (b, r) \<Longrightarrow> s = b @ fence @ r"
proof (induction s arbitrary: b r)
  case Nil
  then show ?case by simp
next
  case (Cons c cs)
  show ?case
  proof (cases "strip_prefix fence (c # cs)")
    case None
    with Cons.prems obtain b' where "lazy_until_fence cs = Some (b', r)" and "b = c # b'"
      by (auto split: option.splits)
    with Cons.IH show ?thesis by simp
  next
    case (Some r')
    with Cons.prems have "b = []" and "r' = r" by auto
    with Some show ?thesis by (simp add: strip_prefix_append)
  qed
qed

lemma after_tag_split: "after_tag s = Some (b, r) \<Longrightarrow> s = [LF] @ b @ fence @ r"
  by (auto simp: after_tag_def split: option.splits
      dest!: strip_prefix_append lazy_until_fence_split)

lemma match_block_split:
  assumes "match_block s = Some (b, r)"
  shows "s = fence @ [LF] @ b @ fence @ r \<or> s = fence @ ''python'' @ [LF] @ b @ fence @ r"
proof -
  from assms obtain r0 where r0: "strip_prefix fence s = Some r0"
    by (auto simp: match_block_def split: option.splits)
  then have s: "s = fence @ r0" by (rule strip_prefix_append)
  show ?thesis
  proof (cases "case strip_prefix ''python'' r0 of None \<Rightarrow> None | Some r' \<Rightarrow> after_tag r'")
    case None
    with assms r0 have "after_tag r0 = Some (b, r)" by (simp add: match_block_def)
    then have "r0 = [LF] @ b @ fence @ r" by (rule after_tag_split)
    with s show ?thesis by simp
  next
    case (Some res)
    with assms r0 have res: "res = (b, r)" by (simp add: match_block_def)
    from Some obtain r' where r': "strip_prefix ''python'' r0 = Some r'" and "after_tag r' = Some res"
      by (auto split: option.splits)
    with res have "r' = [LF] @ b @ fence @ r" by (auto dest: after_tag_split)
    moreover from r' have "r0 = ''python'' @ r'" by (rule strip_prefix_append)
    ultimately show ?thesis using s by simp
  qed
qed

lemma match_block_has_fence: "match_block s = Some (b, r) \<Longrightarrow> has_fence s"
  by (rule has_fence_start) (auto simp: match_block_def split: option.splits)

lemma no_fence_no_blocks: "\<not> has_fence s \<Longrightarrow> extract_code_blocks s = []"
proof (induction s)
  case Nil
  then show ?case
    by (subst extract_code_blocks.simps) (auto split: option.splits dest: match_block_has_fence)
next
  case (Cons c cs)
  from Cons.prems have "\<not> has_fence cs" by (auto dest: has_fence_Cons)
  with Cons.IH have "extract_code_blocks cs = []" by simp
  with Cons.prems show ?case
    by (subst extract_code_blocks.simps) (auto split: option.splits dest: match_block_has_fence)
qed

lemma lazy_until_fence_none: "\<not> has_fence s \<Longrightarrow> lazy_until_fence s = None"
  using lazy_until_fence_split [of s] has_fence_append [of "fence @ _"] has_fence_start [of "fence @ _"]
  by (cases "lazy_until_fence s") (auto simp: strip_prefix_same)

lemma lazy_until_fence_first:
  "lazy_until_fence s = Some (b, r) \<Longrightarrow> k < length b \<Longrightarrow> strip_prefix fence (drop k s) = None"
proof (induction s arbitrary: b r k)
  case Nil
  then show ?case by simp
next
  case (Cons c cs)
  show ?case
  proof (cases "strip_prefix fence (c # cs)")
    case None
    with Cons.prems obtain b' where b': "lazy_until_fence cs = Some (b', r)" "b = c # b'"
      by (auto split: option.splits)
    show ?thesis
    proof (cases k)
      case 0
      with None show ?thesis by simp
    next
      case (Suc j)
      with Cons.prems b' have "j < length b'" by simp
      with b' Cons.IH have "strip_prefix fence (drop j cs) = None" by blast
      with Suc show ?thesis by simp
    qed
  next
    case (Some r')
    with Cons.prems show ?thesis by auto
  qed
qed

lemma lazy_until_fence_found:
  "(\<And>k. k < length b \<Longrightarrow> strip_prefix fence (drop k (b @ fence @ r)) = None) \<Longrightarrow>
   lazy_until_fence (b @ fence @ r) = Some (b, r)"
proof (induction b)
  case Nil
  then show ?case by (simp add: fence_def)
next
  case (Cons c b)
  from Cons.prems [of 0] have none: "strip_prefix fence (c # b @ fence @ r) = None" by simp
  have "strip_prefix fence (drop k (b @ fence @ r)) = None" if "k < length b" for k
    using Cons.prems [of "Suc k"] that by simp
  then have "lazy_until_fence (b @ fence @ r) = Some (b, r)" by (rule Cons.IH)
  with none show ?case by simp
qed

lemma strip_prefix_no_backtick:
  "backtick \<notin> set b \<Longrightarrow> k < length b \<Longrightarrow> strip_prefix fence (drop k (b @ s)) = None"
proof -
  assume a: "backtick \<notin> set b" "k < length b"
  then obtain c cs where "drop k b = c # cs" by (cases "drop k b") auto
  moreover from this a have "c \<noteq> backtick" by (metis in_set_dropD list.set_intros(1))
  ultimately show ?thesis by (simp add: fence_def backtick_def)
qed

lemma lazy_until_fence_plain:
  "backtick \<notin> set b \<Longrightarrow> lazy_until_fence (b @ fence @ r) = Some (b, r)"
  by (rule lazy_until_fence_found) (rule strip_prefix_no_backtick)

lemma match_block_plain:
  "backtick \<notin> set b \<Longrightarrow> match_block (fence @ [LF] @ b @ fence @ r) = Some (b, r)"
  by (simp add: match_block_def strip_prefix_same after_tag_def LF_def lazy_until_fence_plain)

lemma match_block_not_backtick: "c \<noteq> backtick \<Longrightarrow> match_block (c # cs) = None"
  by (simp add: match_block_def fence_def backtick_def)

lemma extract_skip: "backtick \<notin> set pre \<Longrightarrow> extract_code_blocks (pre @ s) = extract_code_blocks s"
proof (induction pre)
  case Nil
  then show ?case by simp
next
  case (Cons c pre)
  then have "match_block (c # pre @ s) = None" by (auto intro: match_block_not_backtick)
  with Cons show ?case by (subst extract_code_blocks.simps) simp
qed

lemma extract_match:
  "match_block s = Some (b, r) \<Longrightarrow> extract_code_blocks s = b # extract_code_blocks r"
  by (subst extract_code_blocks.simps) simp

lemma extract_no_match:
  "match_block (c # cs) = None \<Longrightarrow> extract_code_blocks (c # cs) = extract_code_blocks cs"
  by (subst extract_code_blocks.simps) simp

lemma match_block_needs_closing: "\<not> has_fence (drop 4 s) \<Longrightarrow> match_block s = None"
proof (rule ccontr)
  assume nf: "\<not> has_fence (drop 4 s)" and "match_block s \<noteq> None"
  then obtain b r where "match_block s = Some (b, r)" by auto
  then have "s = fence @ [LF] @ b @ fence @ r \<or> s = fence @ ''python'' @ [LF] @ b @ fence @ r"
    by (rule match_block_split)
  then have "drop 4 s = b @ fence @ r \<or> drop 4 s = ''ython'' @ [LF] @ b @ fence @ r"
    by (auto simp: fence_def)
  moreover have "has_fence (fence @ r)" by (rule has_fence_start) (simp add: strip_prefix_same)
  then have "has_fence (b @ fence @ r)" and "has_fence ((''ython'' @ [LF] @ b) @ fence @ r)"
    by (rule has_fence_append)+
  ultimately show False using nf by auto
qed

lemma has_fence_drop: "has_fence (drop k s) \<Longrightarrow> has_fence s"
  using has_fence_append [of "drop k s" "take k s"] by simp

lemma unterminated_no_blocks:
  assumes "backtick \<notin> set pre" and "\<not> has_fence rest"
  shows "extract_code_blocks (pre @ fence @ rest) = []"
proof -
  have nf: "\<not> has_fence (drop k rest)" for k
    using assms(2) has_fence_drop by blast
  have m0: "match_block (fence @ rest) = None"
    using nf [of 1] by (intro match_block_needs_closing) (simp add: fence_def)
  have m1: "match_block (''``'' @ rest) = None"
    using nf [of 2] by (intro match_block_needs_closing) simp
  have m2: "match_block (''`'' @ rest) = None"
    using nf [of 3] by (intro match_block_needs_closing) simp
  have "extract_code_blocks (pre @ fence @ rest) = extract_code_blocks (fence @ rest)"
    using assms(1) by (rule extract_skip)
  also have "\<dots> = extract_code_blocks (''``'' @ rest)"
    using m0 by (simp add: fence_def extract_no_match)
  also have "\<dots> = extract_code_blocks (''`'' @ rest)"
    using m1 by (simp add: extract_no_match)
  also have "\<dots> = extract_code_blocks rest"
    using m2 by (simp add: extract_no_match)
  also have "\<dots> = []"
    using assms(2) by (rule no_fence_no_blocks)
  finally show ?thesis .
qed

subsection \<open>The shape of an extracted block\<close>


lemma extract_block_shape:
  "b \<in> set (extract_code_blocks t) \<Longrightarrow>
   \<exists>pre tag r. t = pre @ fence @ tag @ [LF] @ b @ fence @ r \<and> (tag = [] \<or> tag = ''python'')"
proof (induction t rule: extract_code_blocks.induct)
  case (1 s)
  show ?case
  proof (cases "match_block s")
    case None
    show ?thesis
    proof (cases s)
      case Nil
      with None "1.prems" show ?thesis by (simp add: extract_code_blocks.simps [of "[]"])
    next
      case (Cons c cs)
      with None "1.prems" have "b \<in> set (extract_code_blocks cs)"
        by (simp add: extract_no_match)
      with "1.IH"(1) [OF None Cons] obtain pre tag r
        where "cs = pre @ fence @ tag @ [LF] @ b @ fence @ r" "tag = [] \<or> tag = ''python''"
        by blast
      with Cons have "s = (c # pre) @ fence @ tag @ [LF] @ b @ fence @ r" by simp
      with \<open>tag = [] \<or> tag = ''python''\<close> show ?thesis by blast
    qed
  next
    case (Some res)
    obtain b' r' where res: "res = (b', r')" by (cases res)
    with Some have m: "match_block s = Some (b', r')" by simp
    with "1.prems" have "b = b' \<or> b \<in> set (extract_code_blocks r')"
      by (simp add: extract_match)
    then show ?thesis
    proof
      assume "b = b'"
      with match_block_split [OF m]
      have "s = [] @ fence @ [] @ [LF] @ b @ fence @ r' \<or>
            s = [] @ fence @ ''python'' @ [LF] @ b @ fence @ r'" by simp
      then show ?thesis by blast
    next
      assume "b \<in> set (extract_code_blocks r')"
      with "1.IH"(2) [OF m refl] obtain pre tag r
        where r': "r' = pre @ fence @ tag @ [LF] @ b @ fence @ r" "tag = [] \<or> tag = ''python''"
        by blast
      from match_block_split [OF m] obtain front where "s = front @ r'" by auto
      with r' have "s = (front @ pre) @ fence @ tag @ [LF] @ b @ fence @ r" by simp
      with r'(2) show ?thesis by blast
    qed
  qed
qed

lemma match_block_same_line:
  assumes "strip_prefix [LF] rest = None" and "strip_prefix (''python'' @ [LF]) rest = None"
  shows "match_block (fence @ rest) = None"
proof (rule ccontr)
  assume "match_block (fence @ rest) \<noteq> None"
  then obtain b r where "match_block (fence @ rest) = Some (b, r)" by auto
  then have "rest = [LF] @ b @ fence @ r \<or> rest = ''python'' @ [LF] @ b @ fence @ r"
    by (auto dest: match_block_split)
  with assms show False by (auto simp: LF_def)
qed

lemma no_newline_no_blocks:
  assumes "LF \<notin> set t"
  shows "extract_code_blocks t = []"
proof (rule ccontr)
  assume "extract_code_blocks t \<noteq> []"
  then obtain b where "b \<in> set (extract_code_blocks t)" by (cases "extract_code_blocks t") auto
  from extract_block_shape [OF this] obtain pre tag r
    where "t = pre @ fence @ tag @ [LF] @ b @ fence @ r" by blast
  with assms show False by simp
qed



lemma match_block_content:
  assumes "match_block s = Some (b, r)"
  shows "lazy_until_fence (b @ fence @ r) = Some (b, r)"
proof -
  have "after_tag x = Some (b, r) \<Longrightarrow> lazy_until_fence (b @ fence @ r) = Some (b, r)" for x
    by (auto simp: after_tag_def split: option.splits dest: lazy_until_fence_split)
  with assms show ?thesis
    by (auto simp: match_block_def split: option.splits)
qed

lemma extract_empty: "extract_code_blocks [] = []"
  by (simp add: extract_code_blocks.simps [of "[]"] match_block_def fence_def)

lemma extract_adjacent:
  assumes "backtick \<notin> set b1" and "backtick \<notin> set sep" and "backtick \<notin> set b2"
  shows "extract_code_blocks (fence @ [LF] @ b1 @ fence @ sep @ fence @ [LF] @ b2 @ fence) = [b1, b2]"
proof -
  have "extract_code_blocks (fence @ [LF] @ b1 @ fence @ sep @ fence @ [LF] @ b2 @ fence) =
        b1 # extract_code_blocks (sep @ fence @ [LF] @ b2 @ fence)"
    using assms(1) by (intro extract_match match_block_plain)
  also have "extract_code_blocks (sep @ fence @ [LF] @ b2 @ fence) =
             extract_code_blocks (fence @ [LF] @ b2 @ fence @ [])"
    using assms(2) by (simp add: extract_skip)
  also have "\<dots> = b2 # extract_code_blocks []"
    using assms(3) by (intro extract_match match_block_plain)
  finally show ?thesis by (simp add: extract_empty)
qed

subsection \<open>The three verdicts\<close>

lemma validate_cases:
  "validate_stackoverflow_answer now t url =
     (if extract_code_blocks t = [] then Inr suspicious_verdict
      else case all_issues now (extract_code_blocks t) url of
             Inl e \<Rightarrow> Inl e
           | Inr issues \<Rightarrow>
               if issues = [] then Inr maybe_ok_verdict
               else Inr (probably_outdated_verdict issues))"
  by (simp add: validate_stackoverflow_answer_def suspicious_verdict_def maybe_ok_verdict_def
      probably_outdated_verdict_def Let_def split: sum.splits)

lemma validate_no_blocks:
  "extract_code_blocks t = [] \<Longrightarrow>
   validate_stackoverflow_answer now t url = Inr suspicious_verdict"
  by (simp add: validate_cases)





subsection \<open>The conversion of the identifier\<close>
































subsection \<open>Well-formed verdicts\<close>













subsection \<open>The verdict without code blocks\<close>

text \<open>
  Claim C2. When extraction finds no block, the verdict is SUSPICIOUS with the fixed
  message and without advice, whatever URL is supplied and whatever the clock shows. This
  covers every text without a fence, and every text with one opening fence that is never
  closed: a fence after text free of backticks and before text free of fences.
\<close>

theorem no_code_blocks_suspicious:
  "(extract_code_blocks t = [] \<longrightarrow> validate_stackoverflow_answer now t url = Inr suspicious_verdict) \<and>
   (\<not> has_fence t \<longrightarrow> validate_stackoverflow_answer now t url = Inr suspicious_verdict) \<and>
   (backtick \<notin> set pre \<and> \<not> has_fence rest \<longrightarrow>
      validate_stackoverflow_answer now (pre @ fence @ rest) url = Inr suspicious_verdict)"
  by (simp add: validate_no_blocks no_fence_no_blocks unterminated_no_blocks)

theorem no_code_blocks_suspicious_witness:
  "extract_code_blocks ''``` x = 1 ```'' = [] \<and>
   validate_stackoverflow_answer clock ''``` x = 1 ```''
     (Some ''https://stackoverflow.com/questions/123456/how-to'') = Inr suspicious_verdict \<and>
   \<not> has_fence ''use `md5` here'' \<and>
   validate_stackoverflow_answer clock ''use `md5` here''
     (Some ''https://stackoverflow.com/questions/123456/how-to'') = Inr suspicious_verdict \<and>
   backtick \<notin> set ''see: '' \<and> \<not> has_fence (LF # ''import md5'') \<and>
   validate_stackoverflow_answer clock (''see: '' @ fence @ LF # ''import md5'')
     (Some ''https://stackoverflow.com/questions/123456/how-to'') = Inr suspicious_verdict"
proof -
  have a: "extract_code_blocks ''``` x = 1 ```'' = []" by code_simp
  have b: "\<not> has_fence ''use `md5` here''" by (simp add: has_fence_def fence_def)
  have c: "backtick \<notin> set ''see: '' \<and> \<not> has_fence (LF # ''import md5'')"
    by (simp add: has_fence_def fence_def backtick_def LF_def)
  show ?thesis
    using a b c
      no_code_blocks_suspicious [of "''``` x = 1 ```''" clock
        "Some ''https://stackoverflow.com/questions/123456/how-to''" "''see: ''" "LF # ''import md5''"]
      no_code_blocks_suspicious [of "''use `md5` here''" clock
        "Some ''https://stackoverflow.com/questions/123456/how-to''" "''see: ''" "LF # ''import md5''"]
    by blast
qed

subsection \<open>The verdict for clean blocks\<close>




subsection \<open>The verdict with a question URL\<close>







subsection \<open>Adjacent blocks and the language tag\<close>

text \<open>
  Claim C5. Extraction is non-greedy: in a match, no fence starts inside the captured
  content, so the first closing fence after the opening fence ends the block. Two fenced
  blocks free of backticks, with only backtick-free text between them, are extracted as
  two entries in their order. For the adjacent blocks with \<^verbatim>\<open>import md5\<close> and \<^verbatim>\<open>x=1\<close>
  extraction gives exactly these two blocks, and only the first has a finding.
\<close>

theorem extraction_non_greedy:
  "(match_block s = Some (b, r) \<longrightarrow>
      (\<forall>k < length b. strip_prefix fence (drop k (b @ fence @ r)) = None)) \<and>
   (backtick \<notin> set b1 \<and> backtick \<notin> set sep \<and> backtick \<notin> set b2 \<longrightarrow>
      extract_code_blocks (fence @ [LF] @ b1 @ fence @ sep @ fence @ [LF] @ b2 @ fence) = [b1, b2]) \<and>
   extract_code_blocks two_blocks = [''import md5'' @ [LF], ''x=1'' @ [LF]] \<and>
   check_imports (''import md5'' @ [LF]) @ check_for_magic_numbers (''import md5'' @ [LF]) =
     [''MD5? More like M-Deprecated''] \<and>
   check_imports (''x=1'' @ [LF]) @ check_for_magic_numbers (''x=1'' @ [LF]) = [] \<and>
   block_issues 1 (extract_code_blocks two_blocks) = [''Block 1: MD5? More like M-Deprecated'']"
proof -
  have one: "match_block s = Some (b, r) \<longrightarrow>
      (\<forall>k < length b. strip_prefix fence (drop k (b @ fence @ r)) = None)"
    using lazy_until_fence_first [OF match_block_content] by blast
  have two: "extract_code_blocks two_blocks = [''import md5'' @ [LF], ''x=1'' @ [LF]]"
    unfolding two_blocks_def by code_simp
  have three: "check_imports (''import md5'' @ [LF]) @ check_for_magic_numbers (''import md5'' @ [LF]) =
     [''MD5? More like M-Deprecated'']"
    by code_simp
  have four: "check_imports (''x=1'' @ [LF]) @ check_for_magic_numbers (''x=1'' @ [LF]) = []"
    by code_simp
  have five: "block_issues 1 [''import md5'' @ [LF], ''x=1'' @ [LF]] =
     [''Block 1: MD5? More like M-Deprecated'']"
    using three four by (simp add: str_int_def str_nat.simps digit_char_def)
  have six: "backtick \<notin> set b1 \<and> backtick \<notin> set sep \<and> backtick \<notin> set b2 \<longrightarrow>
      extract_code_blocks (fence @ [LF] @ b1 @ fence @ sep @ fence @ [LF] @ b2 @ fence) = [b1, b2]"
    using extract_adjacent by blast
  from five two have seven: "block_issues 1 (extract_code_blocks two_blocks) =
      [''Block 1: MD5? More like M-Deprecated'']"
    by simp
  from one six two three four seven show ?thesis by blast
qed

theorem extraction_non_greedy_witness:
  "match_block two_blocks = Some (''import md5'' @ [LF], ''```'' @ [LF] @ ''x=1'' @ [LF] @ ''```'') \<and>
   strip_prefix fence (drop 3 ((''import md5'' @ [LF]) @ fence @ ''```'' @ [LF] @ ''x=1'' @ [LF] @ ''```'')) = None \<and>
   backtick \<notin> set ''a = 1'' \<and> backtick \<notin> set [LF] \<and> backtick \<notin> set ''b = 2'' \<and>
   extract_code_blocks (fence @ [LF] @ ''a = 1'' @ fence @ [LF] @ fence @ [LF] @ ''b = 2'' @ fence) =
     [''a = 1'', ''b = 2'']"
proof -
  have m: "match_block two_blocks = Some (''import md5'' @ [LF], ''```'' @ [LF] @ ''x=1'' @ [LF] @ ''```'')"
    unfolding two_blocks_def by code_simp
  have h: "backtick \<notin> set ''a = 1'' \<and> backtick \<notin> set [LF] \<and> backtick \<notin> set ''b = 2''"
    by (simp add: backtick_def LF_def)
  note inst = extraction_non_greedy [of two_blocks "''import md5'' @ [LF]"
      "''```'' @ [LF] @ ''x=1'' @ [LF] @ ''```''" "''a = 1''" "[LF]" "''b = 2''"]
  from inst m have "\<forall>k < length (''import md5'' @ [LF]).
      strip_prefix fence (drop k ((''import md5'' @ [LF]) @ fence @ ''```'' @ [LF] @ ''x=1'' @ [LF] @ ''```'')) = None"
    by blast
  moreover have "3 < length (''import md5'' @ [LF])" by simp
  ultimately have a: "strip_prefix fence
      (drop 3 ((''import md5'' @ [LF]) @ fence @ ''```'' @ [LF] @ ''x=1'' @ [LF] @ ''```'')) = None"
    by blast
  from inst h have b: "extract_code_blocks
      (fence @ [LF] @ ''a = 1'' @ fence @ [LF] @ fence @ [LF] @ ''b = 2'' @ fence) = [''a = 1'', ''b = 2'']"
    by blast
  from m a h b show ?thesis by blast
qed




subsection \<open>The rule for the print statement\<close>

lemma match_literal_words:
  "match_pattern (Literal_words l) s = (\<exists>c post. s = l @ c # post \<and> is_word c)"
proof
  assume "match_pattern (Literal_words l) s"
  then obtain r where r: "strip_prefix l s = Some r" and "case r of [] \<Rightarrow> False | c # _ \<Rightarrow> is_word c"
    by (cases "strip_prefix l s") auto
  then obtain c post where "r = c # post" and "is_word c" by (cases r) auto
  with r have "strip_prefix l s = Some (c # post)" and "is_word c" by simp_all
  then show "\<exists>c post. s = l @ c # post \<and> is_word c"
    by (auto dest: strip_prefix_append)
next
  assume "\<exists>c post. s = l @ c # post \<and> is_word c"
  then show "match_pattern (Literal_words l) s"
    by (auto simp: strip_prefix_same)
qed

lemma re_search_literal_words:
  "re_search (Literal_words l) code = (\<exists>pre c post. code = pre @ l @ c # post \<and> is_word c)"
proof (induction code)
  case Nil
  show ?case by (auto simp del: match_pattern.simps simp add: match_literal_words)
next
  case (Cons x xs)
  show ?case
  proof
    assume "re_search (Literal_words l) (x # xs)"
    then have "match_pattern (Literal_words l) (x # xs) \<or> re_search (Literal_words l) xs" by simp
    then show "\<exists>pre c post. x # xs = pre @ l @ c # post \<and> is_word c"
    proof
      assume "match_pattern (Literal_words l) (x # xs)"
      then obtain c post where "x # xs = [] @ l @ c # post" "is_word c"
        by (auto simp del: match_pattern.simps simp add: match_literal_words)
      then show ?thesis by blast
    next
      assume "re_search (Literal_words l) xs"
      with Cons.IH obtain pre c post where "xs = pre @ l @ c # post" "is_word c" by blast
      then have "x # xs = (x # pre) @ l @ c # post" by simp
      with \<open>is_word c\<close> show ?thesis by blast
    qed
  next
    assume "\<exists>pre c post. x # xs = pre @ l @ c # post \<and> is_word c"
    then obtain pre c post where eq: "x # xs = pre @ l @ c # post" and w: "is_word c" by blast
    show "re_search (Literal_words l) (x # xs)"
    proof (cases pre)
      case Nil
      with eq w have "match_pattern (Literal_words l) (x # xs)"
        unfolding match_literal_words by auto
      then show ?thesis by simp
    next
      case (Cons y ys)
      with eq have "xs = ys @ l @ c # post" by simp
      with w Cons.IH have "re_search (Literal_words l) xs" by blast
      then show ?thesis by simp
    qed
  qed
qed

lemma vintage_iff_search:
  "(vintage_message \<in> set (check_imports code)) = re_search (Literal_words ''print '') code"
  by (simp add: check_imports_def deprecated_patterns_def vintage_message_def)

lemma check_rules_sublist:
  "distinct (map snd rules) \<Longrightarrow>
   distinct (check_rules rules code) \<and> set (check_rules rules code) \<subseteq> set (map snd rules)"
  by (induction rules code rule: check_rules.induct) auto

lemma check_imports_distinct: "distinct (check_imports code)"
proof -
  have "distinct (map snd deprecated_patterns)" by (simp add: deprecated_patterns_def)
  then show ?thesis unfolding check_imports_def by (simp add: check_rules_sublist)
qed

lemma spec_print_statement_from_search:
  "spec_print_statement_from prev code \<Longrightarrow> re_search (Literal_words ''print '') code"
  by (induction code arbitrary: prev) auto

text \<open>
  Claim C7, as stated, fails: in \<^verbatim>\<open>blueprint x\<close> there is no \<^verbatim>\<open>print\<close> keyword, and the rule
  fires all the same, because the pattern also matches inside a longer word.
\<close>

theorem blueprint_flagged:
  "vintage_message \<in> set (check_imports ''blueprint x'') \<and> \<not> spec_print_statement ''blueprint x''"
  unfolding vintage_iff_search spec_print_statement_def by code_simp

text \<open>
  Claim C7, amended. The rule fires exactly when the block contains the text
  \<^verbatim>\<open>print\<close>, one space and a word character, whatever stands before \<^verbatim>\<open>print\<close>. No message
  occurs twice in the result for a block. The rule fires for every block with the print
  statement form, and for every block containing \<^verbatim>\<open>print x\<close>.
\<close>

theorem print_rule_fires:
  "(vintage_message \<in> set (check_imports code)) =
     (\<exists>pre c post. code = pre @ ''print '' @ c # post \<and> is_word c) \<and>
   distinct (check_imports code) \<and>
   (spec_print_statement code \<longrightarrow> vintage_message \<in> set (check_imports code)) \<and>
   vintage_message \<in> set (check_imports (lead @ ''print x'' @ rest))"
proof -
  have "is_word CHR ''x''" by (simp add: is_word_def)
  then have "\<exists>pre c post. lead @ ''print x'' @ rest = pre @ ''print '' @ c # post \<and> is_word c"
    by (intro exI [of _ lead] exI [of _ "CHR ''x''"] exI [of _ rest]) simp
  then have "vintage_message \<in> set (check_imports (lead @ ''print x'' @ rest))"
    by (simp only: vintage_iff_search re_search_literal_words)
  moreover have "spec_print_statement code \<longrightarrow> vintage_message \<in> set (check_imports code)"
    by (auto simp: spec_print_statement_def vintage_iff_search dest: spec_print_statement_from_search)
  moreover have "(vintage_message \<in> set (check_imports code)) =
      (\<exists>pre c post. code = pre @ ''print '' @ c # post \<and> is_word c)"
    by (simp only: vintage_iff_search re_search_literal_words)
  ultimately show ?thesis
    using check_imports_distinct [of code] by blast
qed

theorem print_rule_fires_witness:
  "spec_print_statement (''for x in xs:'' @ [LF] @ ''    print x'' @ [LF]) \<and>
   vintage_message \<in> set (check_imports (''for x in xs:'' @ [LF] @ ''    print x'' @ [LF])) \<and>
   (\<exists>pre c post. ''for x in xs:'' @ [LF] @ ''    print x'' @ [LF] = pre @ ''print '' @ c # post \<and> is_word c) \<and>
   check_imports (''print a; print b'') = [vintage_message]"
proof -
  have a: "spec_print_statement (''for x in xs:'' @ [LF] @ ''    print x'' @ [LF])"
    unfolding spec_print_statement_def by code_simp
  note inst = print_rule_fires [of "''for x in xs:'' @ [LF] @ ''    print x'' @ [LF]" "[]" "[]"]
  from inst a have b: "vintage_message \<in> set (check_imports (''for x in xs:'' @ [LF] @ ''    print x'' @ [LF]))"
    by blast
  with inst have c: "\<exists>pre c post. ''for x in xs:'' @ [LF] @ ''    print x'' @ [LF] = pre @ ''print '' @ c # post \<and> is_word c"
    by blast
  have d: "check_imports (''print a; print b'') = [vintage_message]"
    unfolding vintage_message_def by code_simp
  from a b c d show ?thesis by blast
qed

subsection \<open>The scan for magic numbers\<close>

lemma digit_is_word: "is_digit c \<Longrightarrow> is_word c"
  by (simp add: is_digit_def is_word_def Let_def)

lemma more_digits_run:
  "is_digit d \<Longrightarrow>
   more_digits d s =
     (if \<not> is_word_opt (head_opt (dropWhile is_digit s))
      then Some (takeWhile is_digit s, dropWhile is_digit s) else None)"
proof (induction s arbitrary: d)
  case Nil
  then show ?case
    by (simp add: word_boundary_def is_word_opt_def head_opt_def digit_is_word)
next
  case (Cons c cs)
  show ?case
  proof (cases "is_digit c")
    case True
    with Cons.IH [of c] Cons.prems show ?thesis
      by (simp add: word_boundary_def is_word_opt_def digit_is_word)
  next
    case False
    with Cons.prems show ?thesis
      by (simp add: word_boundary_def is_word_opt_def head_opt_def digit_is_word)
  qed
qed

lemma match_number_run:
  "match_number prev s =
     (if 3 \<le> length (takeWhile is_digit s) \<and> \<not> is_word_opt prev \<and>
         \<not> is_word_opt (head_opt (dropWhile is_digit s))
      then Some (takeWhile is_digit s, dropWhile is_digit s) else None)"
proof (cases "\<exists>d1 d2 d3 rest. s = d1 # d2 # d3 # rest \<and> is_digit d1 \<and> is_digit d2 \<and> is_digit d3")
  case True
  then obtain d1 d2 d3 rest where s: "s = d1 # d2 # d3 # rest"
    and d: "is_digit d1" "is_digit d2" "is_digit d3" by blast
  then show ?thesis
    by (simp add: match_number_def more_digits_run word_boundary_def head_opt_def
        is_word_opt_def digit_is_word)
next
  case False
  then have short: "\<not> 3 \<le> length (takeWhile is_digit s)"
    by (cases s; cases "tl s"; cases "tl (tl s)") (auto split: if_splits)
  from False have "match_number prev s = None"
    by (auto simp: match_number_def split: list.splits)
  with short show ?thesis by simp
qed

lemma match_number_token:
  "match_number (char_before code i) (drop i code) =
     (case spec_token_at code i of
        None \<Rightarrow> None
      | Some run \<Rightarrow> Some (run, drop (i + length run) code))"
  by (simp add: match_number_run spec_token_at_def Let_def dropWhile_eq_drop add.commute)

lemma spec_token_at_run:
  assumes "spec_token_at code i = Some run"
  shows "run = takeWhile is_digit (drop i code)" and "3 \<le> length run"
    and "i + length run \<le> length code"
proof -
  from assms show run: "run = takeWhile is_digit (drop i code)" and len: "3 \<le> length run"
    by (auto simp: spec_token_at_def Let_def split: if_splits)
  have "length (takeWhile is_digit (drop i code)) \<le> length (drop i code)"
    by (rule length_takeWhile_le)
  with run len show "i + length run \<le> length code" by simp
qed

lemma spec_token_at_inside:
  assumes "spec_token_at code i = Some run" and "i < j" and "j < i + length run"
  shows "spec_token_at code j = None"
proof -
  from assms(1) have run: "run = takeWhile is_digit (drop i code)"
    and le: "i + length run \<le> length code"
    by (rule spec_token_at_run)+
  from assms(2,3) have k: "j - 1 - i < length run" by simp
  then have "run ! (j - 1 - i) \<in> set run" by (rule nth_mem)
  with run have "is_digit (run ! (j - 1 - i))" by (auto dest: set_takeWhileD)
  moreover from k run have "run ! (j - 1 - i) = drop i code ! (j - 1 - i)"
    by (simp add: takeWhile_nth)
  moreover from assms(2,3) le have "drop i code ! (j - 1 - i) = code ! (j - 1)" by simp
  ultimately have "is_word (code ! (j - 1))" by (simp add: digit_is_word)
  with assms(2) show ?thesis
    by (simp add: spec_token_at_def Let_def char_before_def is_word_opt_def)
qed

lemma spec_token_at_last:
  assumes "spec_token_at code i = Some run"
  shows "char_before code (i + length run) = Some (last run)"
proof -
  from assms have run: "run = takeWhile is_digit (drop i code)" and len: "3 \<le> length run"
    and le: "i + length run \<le> length code"
    by (rule spec_token_at_run)+
  from len have ne: "run \<noteq> []" by auto
  then have "last run = run ! (length run - 1)" by (rule last_conv_nth)
  also from len run have "\<dots> = drop i code ! (length run - 1)"
    by (simp add: takeWhile_nth)
  also from len le have "\<dots> = code ! (i + length run - 1)" by simp
  finally show ?thesis using ne by (simp add: char_before_def)
qed

lemma map_filter_none: "(\<And>x. x \<in> set xs \<Longrightarrow> f x = None) \<Longrightarrow> List.map_filter f xs = []"
  by (simp add: List.map_filter_def filter_empty_conv)

lemma map_filter_append: "List.map_filter f (xs @ ys) = List.map_filter f xs @ List.map_filter f ys"
  by (simp add: List.map_filter_def)

lemma find_numbers_tokens:
  "i \<le> length code \<Longrightarrow>
   find_numbers (char_before code i) (drop i code) = List.map_filter (spec_token_at code) [i..<length code]"
proof (induction "length code - i" arbitrary: i rule: less_induct)
  case less
  show ?case
  proof (cases "spec_token_at code i")
    case None
    then have m: "match_number (char_before code i) (drop i code) = None"
      by (simp add: match_number_token)
    show ?thesis
    proof (cases "i = length code")
      case True
      with m show ?thesis by (simp add: find_numbers.simps [of _ "[]"])
    next
      case False
      with less.prems have lt: "i < length code" by simp
      then have d: "drop i code = code ! i # drop (Suc i) code"
        by (simp add: Cons_nth_drop_Suc)
      have "find_numbers (char_before code i) (drop i code) =
            find_numbers (Some (code ! i)) (drop (Suc i) code)"
        using m d by (subst find_numbers.simps) simp
      also have "Some (code ! i) = char_before code (Suc i)" by (simp add: char_before_def)
      also have "find_numbers (char_before code (Suc i)) (drop (Suc i) code) =
                 List.map_filter (spec_token_at code) [Suc i..<length code]"
        using lt by (intro less.hyps) auto
      also have "\<dots> = List.map_filter (spec_token_at code) [i..<length code]"
        using lt None by (simp add: upt_conv_Cons List.map_filter_simps)
      finally show ?thesis .
    qed
  next
    case (Some run)
    then have len: "3 \<le> length run" and le: "i + length run \<le> length code"
      by (rule spec_token_at_run)+
    from Some have m: "match_number (char_before code i) (drop i code) =
        Some (run, drop (i + length run) code)"
      by (simp add: match_number_token)
    have "find_numbers (char_before code i) (drop i code) =
          run # find_numbers (Some (last run)) (drop (i + length run) code)"
      using m by (subst find_numbers.simps) simp
    also have "Some (last run) = char_before code (i + length run)"
      using Some by (simp add: spec_token_at_last)
    also have "find_numbers (char_before code (i + length run)) (drop (i + length run) code) =
               List.map_filter (spec_token_at code) [i + length run..<length code]"
      using len le by (intro less.hyps) auto
    finally have lhs: "find_numbers (char_before code i) (drop i code) =
        run # List.map_filter (spec_token_at code) [i + length run..<length code]" .
    have mid: "List.map_filter (spec_token_at code) [Suc i..<i + length run] = []"
      using spec_token_at_inside [OF Some] by (intro map_filter_none) auto
    have "[i..<i + length run + (length code - (i + length run))] =
        [i..<i + length run] @ [i + length run..<i + length run + (length code - (i + length run))]"
      by (rule upt_add_eq_append) simp
    with le have "[i..<length code] = [i..<i + length run] @ [i + length run..<length code]"
      by simp
    moreover from len have "i < i + length run" by (cases run) auto
    then have "[i..<i + length run] = i # [Suc i..<i + length run]"
      by (rule upt_conv_Cons)
    ultimately have "[i..<length code] =
        i # [Suc i..<i + length run] @ [i + length run..<length code]"
      by simp
    then have "List.map_filter (spec_token_at code) [i..<length code] =
        run # List.map_filter (spec_token_at code) [i + length run..<length code]"
      using Some mid by (simp add: List.map_filter_simps map_filter_append)
    with lhs show ?thesis by simp
  qed
qed

lemma find_numbers_standalone: "find_numbers None code = spec_standalone_numbers code"
  using find_numbers_tokens [of 0 code] by (simp add: char_before_def spec_standalone_numbers_def)

lemma map_filter_member: "f x = Some y \<Longrightarrow> x \<in> set xs \<Longrightarrow> y \<in> set (List.map_filter f xs)"
  by (force simp: List.map_filter_def)

lemma not_word_not_digit: "\<not> is_word c \<Longrightarrow> \<not> is_digit c"
  by (auto dest: digit_is_word)

lemma token_12345:
  assumes "lead = [] \<or> \<not> is_word (last lead)" and "rest = [] \<or> \<not> is_word (hd rest)"
  shows "spec_token_at (lead @ ''12345'' @ rest) (length lead) = Some ''12345''"
proof -
  from assms(2) have tw: "takeWhile is_digit rest = []"
    by (cases rest) (auto dest: not_word_not_digit)
  have "takeWhile is_digit (''12345'' @ rest) = ''12345'' @ takeWhile is_digit rest"
    by (simp add: is_digit_def)
  with tw have run: "takeWhile is_digit (drop (length lead) (lead @ ''12345'' @ rest)) = ''12345''"
    by simp
  from assms(1) have b: "\<not> is_word_opt (char_before (lead @ ''12345'' @ rest) (length lead))"
    by (cases "lead = []") (auto simp: char_before_def is_word_opt_def nth_append last_conv_nth)
  from assms(2) have a: "\<not> is_word_opt (head_opt (drop (length lead + 5) (lead @ ''12345'' @ rest)))"
    by (cases rest) (auto simp: head_opt_def is_word_opt_def)
  from run a b show ?thesis by (simp add: spec_token_at_def)
qed

text \<open>
  Claim C8. The numbers the scan finds are the standalone numbers of the block: every run
  of three or more digits with no word character before or after it, by position, so
  digits inside a longer identifier are not among them. When there is such a token, the
  sub-check gives exactly one finding: the fixed words, the tokens as they stand, joined
  by a comma and a space, and the fixed ending; without a token it gives nothing. Every
  occurrence is listed, so a number that stands twice in the block is listed twice. A block
  with the token \<^verbatim>\<open>12345\<close> standing alone has it among its tokens, and the block
  \<^verbatim>\<open>port = 12345\<close> gets the finding that lists it.
\<close>

theorem magic_numbers_finding:
  "find_numbers None code = spec_standalone_numbers code \<and>
   check_for_magic_numbers code =
     (if spec_standalone_numbers code = [] then [] else [magic_finding (spec_standalone_numbers code)]) \<and>
   ((lead = [] \<or> \<not> is_word (last lead)) \<and> (rest = [] \<or> \<not> is_word (hd rest)) \<longrightarrow>
      ''12345'' \<in> set (spec_standalone_numbers (lead @ ''12345'' @ rest))) \<and>
   check_for_magic_numbers ''port = 12345'' = [magic_finding [''12345'']]"
proof -
  have a: "find_numbers None code = spec_standalone_numbers code" by (rule find_numbers_standalone)
  then have b: "check_for_magic_numbers code =
     (if spec_standalone_numbers code = [] then [] else [magic_finding (spec_standalone_numbers code)])"
    by (simp add: check_for_magic_numbers_def magic_finding_def)
  have c: "''12345'' \<in> set (spec_standalone_numbers (lead @ ''12345'' @ rest))"
    if "lead = [] \<or> \<not> is_word (last lead)" and "rest = [] \<or> \<not> is_word (hd rest)"
    unfolding spec_standalone_numbers_def
    using token_12345 [OF that] by (rule map_filter_member) simp
  have "find_numbers None ''port = 12345'' = [''12345'']" by code_simp
  then have d: "check_for_magic_numbers ''port = 12345'' = [magic_finding [''12345'']]"
    by (simp add: check_for_magic_numbers_def magic_finding_def)
  from a b c d show ?thesis by blast
qed

theorem magic_numbers_finding_witness:
  "spec_standalone_numbers config_block = [''3000'', ''8080''] \<and>
   check_for_magic_numbers config_block =
     [''Magic number(s) found: 3000, 8080 - hope they're not port numbers''] \<and>
   \<not> is_word (last ''port = '') \<and> \<not> is_word (hd ''; x = 1'') \<and>
   ''12345'' \<in> set (spec_standalone_numbers (''port = '' @ ''12345'' @ ''; x = 1'')) \<and>
   spec_standalone_numbers ''x1234 = a_5678'' = [] \<and>
   check_for_magic_numbers ''x1234 = a_5678'' = [] \<and>
   check_for_magic_numbers ''a = 100; b = 100'' =
     [''Magic number(s) found: 100, 100 - hope they're not port numbers'']"
proof -
  have "find_numbers None config_block = [''3000'', ''8080'']"
    unfolding config_block_def by code_simp
  with magic_numbers_finding [of config_block]
  have a: "spec_standalone_numbers config_block = [''3000'', ''8080'']" by simp
  with magic_numbers_finding [of config_block]
  have b: "check_for_magic_numbers config_block =
     [''Magic number(s) found: 3000, 8080 - hope they're not port numbers'']"
    by (simp add: magic_finding_def)
  have c: "\<not> is_word (last ''port = '') \<and> \<not> is_word (hd ''; x = 1'')"
    by (simp add: is_word_def)
  with magic_numbers_finding [of _ "''port = ''" "''; x = 1''"]
  have d: "''12345'' \<in> set (spec_standalone_numbers (''port = '' @ ''12345'' @ ''; x = 1''))"
    by blast
  have "find_numbers None ''x1234 = a_5678'' = []" by code_simp
  with magic_numbers_finding [of "''x1234 = a_5678''"]
  have e: "spec_standalone_numbers ''x1234 = a_5678'' = [] \<and> check_for_magic_numbers ''x1234 = a_5678'' = []"
    by simp
  have "find_numbers None ''a = 100; b = 100'' = [''100'', ''100'']" by code_simp
  with magic_numbers_finding [of "''a = 100; b = 100''"]
  have twice: "spec_standalone_numbers ''a = 100; b = 100'' = [''100'', ''100'']" by simp
  with magic_numbers_finding [of "''a = 100; b = 100''"]
  have f: "check_for_magic_numbers ''a = 100; b = 100'' =
     [''Magic number(s) found: 100, 100 - hope they're not port numbers'']"
    by (simp add: magic_finding_def)
  from a b c d e f show ?thesis by blast
qed

subsection \<open>The clock\<close>

text \<open>
  Claim C9. Two calls with the same text and the same URL, made at clock readings of the
  same year, return the same result, the same verdict or the same error: of the clock
  only the year is read, and nothing else enters the result.
\<close>

theorem validate_deterministic:
  "t1 = t2 \<Longrightarrow> url1 = url2 \<Longrightarrow> year now1 = year now2 \<Longrightarrow>
   validate_stackoverflow_answer now1 t1 url1 = validate_stackoverflow_answer now2 t2 url2"
proof -
  assume "t1 = t2" and "url1 = url2" and y: "year now1 = year now2"
  moreover from y have "all_issues now1 blocks url2 = all_issues now2 blocks url2" for blocks
    by (simp add: all_issues_def url_issues_def)
  ultimately show ?thesis by (simp add: validate_cases)
qed

theorem validate_deterministic_witness:
  "year clock = year later_clock \<and> clock \<noteq> later_clock \<and>
   validate_stackoverflow_answer clock clean_answer (Some old_url) =
   validate_stackoverflow_answer later_clock clean_answer (Some old_url)"
proof -
  have y: "year clock = year later_clock" by (simp add: clock_def later_clock_def)
  have "clock \<noteq> later_clock" by (simp add: clock_def later_clock_def)
  with y validate_deterministic [OF refl refl y, of clean_answer "Some old_url"]
  show ?thesis by simp
qed

subsection \<open>The newline after the opening fence\<close>

text \<open>
  Claim C10. A block is extracted only from an opening fence that is followed, after the
  optional tag, at once by a newline. When the text after an opening fence starts neither
  with a newline nor with the tag and a newline, nothing is extracted at that fence; a
  text without any newline, such as the one-line block, gives no block at all. The
  closing fence needs no newline before it.
\<close>

theorem opening_fence_needs_newline:
  "(b \<in> set (extract_code_blocks t) \<longrightarrow>
      (\<exists>pre tag r. t = pre @ fence @ tag @ [LF] @ b @ fence @ r \<and> (tag = [] \<or> tag = ''python''))) \<and>
   (strip_prefix [LF] rest = None \<and> strip_prefix (''python'' @ [LF]) rest = None \<longrightarrow>
      match_block (fence @ rest) = None) \<and>
   (LF \<notin> set line \<longrightarrow> extract_code_blocks line = []) \<and>
   (backtick \<notin> set c \<longrightarrow> match_block (fence @ [LF] @ c @ fence @ r') = Some (c, r')) \<and>
   extract_code_blocks one_line_block = []"
proof -
  have "LF \<notin> set one_line_block" by (simp add: one_line_block_def LF_def)
  then have "extract_code_blocks one_line_block = []" by (rule no_newline_no_blocks)
  then show ?thesis
    using extract_block_shape [of b t] match_block_same_line [of rest]
      no_newline_no_blocks [of line] match_block_plain [of c r']
    by blast
qed

theorem opening_fence_needs_newline_witness:
  "''x=1'' \<in> set (extract_code_blocks (''```'' @ [LF] @ ''x=1```'')) \<and>
   (\<exists>pre tag r. ''```'' @ [LF] @ ''x=1```'' = pre @ fence @ tag @ [LF] @ ''x=1'' @ fence @ r \<and>
      (tag = [] \<or> tag = ''python'')) \<and>
   strip_prefix [LF] ''x=1```'' = None \<and> strip_prefix (''python'' @ [LF]) ''x=1```'' = None \<and>
   match_block (fence @ ''x=1```'') = None \<and>
   LF \<notin> set ''```x=1```'' \<and> extract_code_blocks ''```x=1```'' = [] \<and>
   backtick \<notin> set ''x=1'' \<and> match_block (fence @ [LF] @ ''x=1'' @ fence @ []) = Some (''x=1'', [])"
proof -
  have a: "extract_code_blocks (''```'' @ [LF] @ ''x=1```'') = [''x=1'']" by code_simp
  have b: "strip_prefix [LF] ''x=1```'' = None \<and> strip_prefix (''python'' @ [LF]) ''x=1```'' = None"
    by (simp add: LF_def)
  have c: "LF \<notin> set ''```x=1```''" by (simp add: LF_def)
  have d: "backtick \<notin> set ''x=1''" by (simp add: backtick_def)
  note inst = opening_fence_needs_newline [of "''x=1''" "''```'' @ [LF] @ ''x=1```''" "''x=1```''"
      "''```x=1```''" "''x=1''" "[]"]
  from a have a': "''x=1'' \<in> set (extract_code_blocks (''```'' @ [LF] @ ''x=1```''))" by simp
  from inst a' have e: "\<exists>pre tag r. ''```'' @ [LF] @ ''x=1```'' = pre @ fence @ tag @ [LF] @ ''x=1'' @ fence @ r \<and>
      (tag = [] \<or> tag = ''python'')" by blast
  from inst b have f: "match_block (fence @ ''x=1```'') = None" by blast
  from inst c have g: "extract_code_blocks ''```x=1```'' = []" by blast
  from inst d have h: "match_block (fence @ [LF] @ ''x=1'' @ fence @ []) = Some (''x=1'', [])" by blast
  from a' e b f c g d h show ?thesis by blast
qed

end
